theory Spec2Isabelle
  imports Main "HOL-Library.Sublist"
begin

section \<open>Text primitives of the host language\<close>

text \<open>
  The analyser works on Python \<open>str\<close> values. A text is modelled as a \<open>string\<close> whose
  characters stand for the code points 0 to 255, so \<open>length\<close> counts code points as
  Python's \<open>len\<close> does. On that range \<open>str.isspace\<close> (which both \<open>str.strip\<close> and the
  regular-expression class \<open>\s\<close> consult) holds for the code points 9 to 13, 28 to 32,
  133 and 160, and \<open>str.lower\<close> moves the capital letters 65 to 90 and 192 to 222
  (without 215, the multiplication sign) up by 32.
\<close>

definition newline :: char where
  "newline = CHR 0x0A"

definition isspace :: "char \<Rightarrow> bool" where
  "isspace c = (let n = (of_char c :: nat) in
     (9 \<le> n \<and> n \<le> 13) \<or> (28 \<le> n \<and> n \<le> 32) \<or> n = 133 \<or> n = 160)"

definition lower_char :: "char \<Rightarrow> char" where
  "lower_char c = (let n = (of_char c :: nat) in
     if (65 \<le> n \<and> n \<le> 90) \<or> (192 \<le> n \<and> n \<le> 222 \<and> n \<noteq> 215)
     then char_of (n + 32) else c)"

definition lower :: "string \<Rightarrow> string" where
  "lower s = map lower_char s"

text \<open>\<open>p in s\<close> on two strings: \<open>p\<close> occurs in \<open>s\<close> as a contiguous run.\<close>

fun str_in :: "string \<Rightarrow> string \<Rightarrow> bool" where
  "str_in p [] = (p = [])"
| "str_in p (c # s) = (prefix p (c # s) \<or> str_in p s)"

text \<open>\<open>s.strip()\<close>: the whitespace at both ends is removed.\<close>

definition strip :: "string \<Rightarrow> string" where
  "strip s = rev (dropWhile isspace (rev (dropWhile isspace s)))"

section \<open>Clause segmentation\<close>

text \<open>
  \<open>re.split\<close> with the pattern \<open>\n\s*\n\<close>. The pattern is tried at the head of the
  input: a line break, then the longest run of whitespace that follows, then a line break.
  Where no line break follows the run, the repetition gives its characters back one at a
  time, from the longest run down to the empty one, and the first length at which a line
  break comes next is the match. \<open>give_back k r\<close> tries the lengths \<open>k\<close>, \<open>k - 1\<close>, down to
  \<open>0\<close> on the input \<open>r\<close> behind the first line break and returns the input left behind the
  match.
\<close>

fun give_back :: "nat \<Rightarrow> string \<Rightarrow> string option" where
  "give_back 0 r =
     (if 0 < length r \<and> r ! 0 = newline then Some (drop 1 r) else None)"
| "give_back (Suc k) r =
     (if Suc k < length r \<and> r ! Suc k = newline then Some (drop (Suc k + 1) r)
      else give_back k r)"

definition match_blank :: "string \<Rightarrow> string option" where
  "match_blank s =
     (case s of
        [] \<Rightarrow> None
      | c # r \<Rightarrow>
          if c = newline then give_back (length (takeWhile isspace r)) r else None)"

lemma give_back_shorter: "give_back k r = Some rest \<Longrightarrow> length rest < length r"
  by (induction k) (auto split: if_splits)

lemma match_blank_shorter: "match_blank s = Some rest \<Longrightarrow> length rest < length s"
  by (cases s) (auto simp: match_blank_def less_Suc_eq dest: give_back_shorter split: if_splits)

text \<open>
  The split itself: the search for the next match moves through the text from left to
  right; a match closes the piece before it and the search goes on behind the match; a
  character at which the pattern does not match belongs to the current piece. The text
  left after the last match is the last piece, so the result is never empty.
\<close>

function re_split :: "string \<Rightarrow> string list" where
  "re_split [] = [[]]"
| "re_split (c # r) =
     (case match_blank (c # r) of
        Some rest \<Rightarrow> [] # re_split rest
      | None \<Rightarrow> (case re_split r of [] \<Rightarrow> [[c]] | p # ps \<Rightarrow> (c # p) # ps))"
  by pat_completeness auto
termination
  by (relation "measure length") (auto dest: match_blank_shorter)

definition split_clauses :: "string \<Rightarrow> string list" where
  "split_clauses text =
     (let parts = re_split text;
          clauses = map strip (filter (\<lambda>p. length (strip p) > 40) parts)
      in clauses)"

text \<open>\<open>sep.join(xs)\<close>.\<close>

fun str_join :: "string \<Rightarrow> string list \<Rightarrow> string" where
  "str_join sep [] = []"
| "str_join sep [x] = x"
| "str_join sep (x # y # ys) = x @ sep @ str_join sep (y # ys)"

text \<open>
  A blank-line boundary is a run of whitespace of at least two characters that begins and
  ends with a line break: the end of one line, any number of lines of whitespace only, and
  the line break that ends the last of them. It is what the pattern \<open>\n\s*\n\<close> describes.
\<close>

definition blank_line_boundary :: "string \<Rightarrow> bool" where
  "blank_line_boundary b =
     (2 \<le> length b \<and> hd b = newline \<and> last b = newline \<and> list_all isspace b)"

text \<open>
  \<open>weave pieces seps\<close> puts a text together again from its pieces and the separators
  between them, in order.
\<close>

fun weave :: "string list \<Rightarrow> string list \<Rightarrow> string" where
  "weave (p # ps) (b # bs) = p @ b @ weave ps bs"
| "weave ps [] = concat ps"
| "weave [] bs = concat bs"

text \<open>
  Three predicates for the proofs: a text starts with a blank-line boundary; a text has one
  somewhere; a clause is clean when it is not empty, has no whitespace at either end and
  no blank-line boundary inside.
\<close>

definition starts_blank :: "string \<Rightarrow> bool" where
  "starts_blank s =
     (case s of [] \<Rightarrow> False | c # r \<Rightarrow> c = newline \<and> newline \<in> set (takeWhile isspace r))"

fun has_blank :: "string \<Rightarrow> bool" where
  "has_blank [] = False"
| "has_blank (c # r) = (starts_blank (c # r) \<or> has_blank r)"

definition clean :: "string \<Rightarrow> bool" where
  "clean c = (c \<noteq> [] \<and> \<not> isspace (hd c) \<and> \<not> isspace (last c) \<and> \<not> has_blank c)"

section \<open>Contract type\<close>

definition classify_contract :: "string \<Rightarrow> string" where
  "classify_contract text =
     (let t = lower text in
      if str_in ''employee'' t \<or> str_in ''salary'' t then ''Employment Agreement''
      else if str_in ''lease'' t \<or> str_in ''rent'' t then ''Lease Agreement''
      else if str_in ''vendor'' t \<or> str_in ''supply'' t then ''Vendor Contract''
      else if str_in ''partner'' t then ''Partnership Agreement''
      else ''Service Agreement'')"

section \<open>Obligation, right, prohibition\<close>

definition classify_intent :: "string \<Rightarrow> string" where
  "classify_intent clause =
     (let c = lower clause in
      if str_in ''shall not'' c \<or> str_in ''must not'' c \<or> str_in ''prohibited'' c
      then ''Prohibition''
      else if str_in ''shall'' c \<or> str_in ''must'' c then ''Obligation''
      else if str_in ''may'' c \<or> str_in ''entitled to'' c then ''Right''
      else ''Neutral'')"

section \<open>Ambiguity detection\<close>

definition vague_phrases :: "string list" where
  "vague_phrases =
     [''reasonable'', ''as soon as possible'', ''etc'', ''as appropriate'', ''from time to time'']"

definition detect_ambiguity :: "string \<Rightarrow> string list" where
  "detect_ambiguity clause = filter (\<lambda>w. str_in w (lower clause)) vague_phrases"

section \<open>Risk detection\<close>

text \<open>
  \<open>risks.append(r)\<close> under a condition: the list grows at its end when the test holds and
  is left as it is otherwise.
\<close>

definition append_if :: "bool \<Rightarrow> string \<Rightarrow> string list \<Rightarrow> string list" where
  "append_if b r risks = (if b then risks @ [r] else risks)"

definition detect_risks :: "string \<Rightarrow> string list" where
  "detect_risks clause =
     (let c = lower clause;
          risks = [];
          risks = append_if (str_in ''indemn'' c) ''Indemnity'' risks;
          risks = append_if (str_in ''penalty'' c \<or> str_in ''fine'' c) ''Penalty'' risks;
          risks = append_if (str_in ''terminate at any time'' c \<or> str_in ''without cause'' c)
                    ''Unilateral Termination'' risks;
          risks = append_if (str_in ''arbitration'' c \<or> str_in ''jurisdiction'' c)
                    ''Arbitration/Jurisdiction'' risks;
          risks = append_if (str_in ''automatically renew'' c) ''Auto Renewal'' risks;
          risks = append_if (str_in ''non-compete'' c) ''Non Compete'' risks;
          risks = append_if (str_in ''intellectual property'' c \<and> str_in ''assign'' c)
                    ''IP Transfer'' risks;
          risks = append_if (str_in ''lock-in'' c \<or> str_in ''cannot terminate before'' c)
                    ''Lock-in Period'' risks
      in risks)"

definition risk_level :: "string list \<Rightarrow> string" where
  "risk_level risks =
     (if length risks = 0 then ''Low''
      else if length risks = 1 then ''Medium''
      else ''High'')"

text \<open>The eight categories, in the order in which \<open>detect_risks\<close> tests them.\<close>

definition taxonomy :: "string list" where
  "taxonomy =
     [''Indemnity'', ''Penalty'', ''Unilateral Termination'', ''Arbitration/Jurisdiction'',
      ''Auto Renewal'', ''Non Compete'', ''IP Transfer'', ''Lock-in Period'']"

section \<open>The analysis loop\<close>

text \<open>
  What the loop over \<open>enumerate(clauses)\<close> shows for one clause. The similarity score is a
  floating-point number that is only displayed; it takes no part in the level or in the
  count and is left out of the record.
\<close>

record clause_report =
  ordinal :: nat
  intent :: string
  level :: string
  risks :: "string list"
  vague :: "string list"

fun analysis_loop :: "nat \<Rightarrow> string list \<Rightarrow> nat \<Rightarrow> clause_report list \<times> nat" where
  "analysis_loop i [] high_count = ([], high_count)"
| "analysis_loop i (clause # rest) high_count =
     (let intent = classify_intent clause;
          risks = detect_risks clause;
          level = risk_level risks;
          vague = detect_ambiguity clause;
          high_count = (if level = ''High'' then high_count + 1 else high_count);
          shown = \<lparr>ordinal = i + 1, intent = intent, level = level, risks = risks,
                   vague = vague\<rparr>;
          (more, final) = analysis_loop (i + 1) rest high_count
      in (shown # more, final))"

definition overall_risk :: "nat \<Rightarrow> string" where
  "overall_risk high_count =
     (if high_count > 2 then ''High''
      else if high_count > 0 then ''Medium''
      else ''Low'')"

text \<open>
  One run on a normalised text: the clauses, the contract type of the whole text, the
  loop with the count of high clauses starting at zero, and the overall verdict.
\<close>

definition analyse :: "string \<Rightarrow> string \<times> clause_report list \<times> string" where
  "analyse text =
     (let clauses = split_clauses text;
          contract_type = classify_contract text;
          (reports, high_count) = analysis_loop 0 clauses 0;
          overall = overall_risk high_count
      in (contract_type, reports, overall))"

section \<open>Facts about the text primitives\<close>


text \<open>
  \<open>str_in\<close> is the contiguous-sublist relation: \<open>p in s\<close> holds exactly when
  \<open>s = u @ p @ v\<close> for some \<open>u\<close> and \<open>v\<close>.
\<close>


lemma str_in_sublist: "str_in p s = sublist p s"
  by (induction s) (auto simp: sublist_Cons_right)

section \<open>Facts about the segmenter\<close>

lemma isspace_newline: "isspace newline"
  by (simp add: isspace_def newline_def)

lemma give_back_None_iff:
  "give_back k r = None \<longleftrightarrow> (\<forall>j\<le>k. \<not> (j < length r \<and> r ! j = newline))"
proof (induction k)
  case 0
  show ?case by simp
next
  case (Suc k)
  show ?case
    by (auto simp: Suc.IH le_Suc_eq)
qed

lemma give_back_last:
  "j \<le> k \<Longrightarrow> j < length r \<Longrightarrow> r ! j = newline \<Longrightarrow>
   (\<forall>i. j < i \<and> i \<le> k \<longrightarrow> \<not> (i < length r \<and> r ! i = newline)) \<Longrightarrow>
   give_back k r = Some (drop (Suc j) r)"
proof (induction k)
  case 0
  then show ?case by simp
next
  case (Suc k)
  show ?case
  proof (cases "j = Suc k")
    case True
    with Suc.prems show ?thesis by simp
  next
    case False
    with Suc.prems have "j \<le> k" by simp
    moreover from Suc.prems False have "\<not> (Suc k < length r \<and> r ! Suc k = newline)"
      by (metis le_refl le_neq_implies_less)
    moreover from Suc.prems
    have "\<forall>i. j < i \<and> i \<le> k \<longrightarrow> \<not> (i < length r \<and> r ! i = newline)"
      by simp
    ultimately show ?thesis
      using Suc.IH Suc.prems(2,3) by auto
  qed
qed

lemma give_back_Some:
  "give_back k r = Some rest \<Longrightarrow>
   \<exists>j\<le>k. j < length r \<and> r ! j = newline \<and> rest = drop (Suc j) r"
  by (induction k) (auto split: if_splits simp: le_Suc_eq)

lemma takeWhile_has_newline:
  "newline \<in> set (takeWhile isspace r) \<longleftrightarrow>
     (\<exists>j\<le>length (takeWhile isspace r). j < length r \<and> r ! j = newline)"
proof
  assume "newline \<in> set (takeWhile isspace r)"
  then obtain j where j: "j < length (takeWhile isspace r)" "takeWhile isspace r ! j = newline"
    by (auto simp: in_set_conv_nth)
  then have "r ! j = newline" by (simp add: takeWhile_nth)
  moreover have "length (takeWhile isspace r) \<le> length r" by (rule length_takeWhile_le)
  ultimately show "\<exists>j\<le>length (takeWhile isspace r). j < length r \<and> r ! j = newline"
    using j(1) by (intro exI [of _ j]) simp
next
  assume "\<exists>j\<le>length (takeWhile isspace r). j < length r \<and> r ! j = newline"
  then obtain j where j: "j \<le> length (takeWhile isspace r)" "j < length r" "r ! j = newline"
    by blast
  have "j \<noteq> length (takeWhile isspace r)"
  proof
    assume eq: "j = length (takeWhile isspace r)"
    with j(2) have "\<not> isspace (r ! j)" by (simp add: nth_length_takeWhile)
    with j(3) show False by (simp add: isspace_newline)
  qed
  with j(1) have lt: "j < length (takeWhile isspace r)" by simp
  then have "takeWhile isspace r ! j = newline" using j(3) by (simp add: takeWhile_nth)
  with lt show "newline \<in> set (takeWhile isspace r)" by (metis nth_mem)
qed

lemma match_blank_None_iff: "match_blank s = None \<longleftrightarrow> \<not> starts_blank s"
proof (cases s)
  case Nil
  then show ?thesis by (simp add: match_blank_def starts_blank_def)
next
  case (Cons c r)
  then show ?thesis
    by (auto simp: match_blank_def starts_blank_def give_back_None_iff takeWhile_has_newline)
qed

lemma re_split_nonempty: "re_split s \<noteq> []"
  by (induction s rule: re_split.induct) (auto split: option.splits list.splits)

lemma re_split_no_match:
  "match_blank (c # r) = None \<Longrightarrow> re_split (c # r) = (c # hd (re_split r)) # tl (re_split r)"
  using re_split_nonempty [of r] by (cases "re_split r") simp_all

lemma re_split_match:
  "match_blank (c # r) = Some rest \<Longrightarrow> re_split (c # r) = [] # re_split rest"
  by simp

lemma starts_blank_append: "starts_blank u \<Longrightarrow> starts_blank (u @ v)"
proof (cases u)
  case Nil
  then show "starts_blank u \<Longrightarrow> ?thesis" by (simp add: starts_blank_def)
next
  case (Cons c r)
  assume "starts_blank u"
  with Cons have c: "c = newline" and n: "newline \<in> set (takeWhile isspace r)"
    by (simp_all add: starts_blank_def)
  have "newline \<in> set (takeWhile isspace (r @ v))"
  proof (cases "\<forall>x\<in>set r. isspace x")
    case True
    then have "takeWhile isspace r = r" by simp
    with n True show ?thesis by simp
  next
    case False
    then obtain x where "x \<in> set r" "\<not> isspace x" by blast
    then have "takeWhile isspace (r @ v) = takeWhile isspace r"
      by (rule takeWhile_append1)
    with n show ?thesis by simp
  qed
  with c Cons show ?thesis by (simp add: starts_blank_def)
qed

lemma has_blank_append_left: "has_blank u \<Longrightarrow> has_blank (u @ v)"
proof (induction u)
  case Nil
  then show ?case by simp
next
  case (Cons c r)
  then show ?case
    using starts_blank_append [of "c # r" v] by auto
qed

lemma has_blank_append_right: "has_blank v \<Longrightarrow> has_blank (u @ v)"
  by (induction u) auto

lemma has_blank_sublist: "sublist q p \<Longrightarrow> has_blank q \<Longrightarrow> has_blank p"
  by (auto simp: sublist_def intro: has_blank_append_left has_blank_append_right)

lemma hd_re_split_prefix: "prefix (hd (re_split s)) s"
proof (induction s rule: re_split.induct)
  case 1
  show ?case by simp
next
  case (2 c r)
  show ?case
  proof (cases "match_blank (c # r)")
    case None
    with 2 show ?thesis by (simp add: re_split_no_match del: re_split.simps)
  next
    case (Some rest)
    then show ?thesis by simp
  qed
qed

lemma re_split_pieces_clean: "p \<in> set (re_split s) \<Longrightarrow> \<not> has_blank p"
proof (induction s arbitrary: p rule: re_split.induct)
  case 1
  then show ?case by simp
next
  case (2 c r)
  show ?case
  proof (cases "match_blank (c # r)")
    case None
    from None have nb: "\<not> starts_blank (c # r)" by (simp add: match_blank_None_iff)
    obtain v where r: "r = hd (re_split r) @ v"
      using hd_re_split_prefix [of r] by (auto simp: prefix_def)
    have "\<not> starts_blank (c # hd (re_split r))"
    proof
      assume "starts_blank (c # hd (re_split r))"
      then have "starts_blank ((c # hd (re_split r)) @ v)" by (rule starts_blank_append)
      with r nb show False by simp
    qed
    moreover have "\<not> has_blank (hd (re_split r))"
      using "2.IH"(1) [OF None] re_split_nonempty [of r] by simp
    moreover have "\<And>q. q \<in> set (tl (re_split r)) \<Longrightarrow> \<not> has_blank q"
      using "2.IH"(1) [OF None] re_split_nonempty [of r] by (auto dest: list.set_sel(2))
    ultimately show ?thesis
      using "2.prems" None by (auto simp: re_split_no_match simp del: re_split.simps)
  next
    case (Some rest)
    with "2.prems" "2.IH"(2) [OF Some] show ?thesis by auto
  qed
qed

lemma match_blank_boundary:
  assumes "match_blank s = Some rest"
  shows "\<exists>b. s = b @ rest \<and> blank_line_boundary b"
proof -
  from assms obtain r where s: "s = newline # r"
    and g: "give_back (length (takeWhile isspace r)) r = Some rest"
    by (cases s) (auto simp: match_blank_def split: if_splits)
  let ?k = "length (takeWhile isspace r)"
  from give_back_Some [OF g] obtain j where j: "j \<le> ?k" "j < length r" "r ! j = newline"
    and rest: "rest = drop (Suc j) r"
    by blast
  have ws: "isspace (r ! i)" if "i \<le> j" for i
  proof (cases "i = j")
    case True
    with j(3) show ?thesis by (simp add: isspace_newline)
  next
    case False
    with that j(1) have lt: "i < ?k" by simp
    then have "takeWhile isspace r ! i \<in> set (takeWhile isspace r)" by (rule nth_mem)
    then have "isspace (takeWhile isspace r ! i)" by (rule set_takeWhileD [THEN conjunct2])
    with lt show ?thesis by (simp add: takeWhile_nth)
  qed
  let ?b = "newline # take (Suc j) r"
  have "s = ?b @ rest" by (simp add: s rest)
  moreover have "2 \<le> length ?b" using j(2) by simp
  moreover have "hd ?b = newline" by simp
  moreover have "last ?b = newline"
    using j(2,3) by (simp add: last_conv_nth)
  moreover have "list_all isspace ?b"
    using ws j(2) by (auto simp: list_all_length isspace_newline nth_Cons split: nat.split)
  ultimately show ?thesis
    unfolding blank_line_boundary_def by blast
qed

lemma boundary_shape:
  "blank_line_boundary b \<longleftrightarrow>
     (\<exists>w. b = newline # w \<and> w \<noteq> [] \<and> last w = newline \<and> list_all isspace w)"
proof
  assume b: "blank_line_boundary b"
  then obtain x w where bw: "b = x # w" by (cases b) (auto simp: blank_line_boundary_def)
  with b show "\<exists>w. b = newline # w \<and> w \<noteq> [] \<and> last w = newline \<and> list_all isspace w"
    by (cases w) (auto simp: blank_line_boundary_def)
next
  assume "\<exists>w. b = newline # w \<and> w \<noteq> [] \<and> last w = newline \<and> list_all isspace w"
  then obtain w where "b = newline # w" "w \<noteq> []" "last w = newline" "list_all isspace w"
    by blast
  then show "blank_line_boundary b"
    by (cases w) (auto simp: blank_line_boundary_def isspace_newline)
qed

lemma starts_blank_iff:
  "starts_blank s \<longleftrightarrow> (\<exists>b. blank_line_boundary b \<and> prefix b s)"
proof
  assume "starts_blank s"
  then have "match_blank s \<noteq> None" by (simp add: match_blank_None_iff)
  then obtain rest where "match_blank s = Some rest" by blast
  from match_blank_boundary [OF this] show "\<exists>b. blank_line_boundary b \<and> prefix b s"
    by (auto simp: prefix_def)
next
  assume "\<exists>b. blank_line_boundary b \<and> prefix b s"
  then obtain b q where b: "blank_line_boundary b" and s: "s = b @ q"
    by (auto simp: prefix_def)
  from b obtain w where w: "b = newline # w" "w \<noteq> []" "last w = newline" "list_all isspace w"
    unfolding boundary_shape by blast
  have "takeWhile isspace (w @ q) = w @ takeWhile isspace q"
    using w(4) by (intro takeWhile_append2) (simp add: list_all_iff)
  moreover have "newline \<in> set w" using w(2,3) by (metis last_in_set)
  ultimately show "starts_blank s"
    by (simp add: s w(1) starts_blank_def)
qed

lemma has_blank_iff: "has_blank p \<longleftrightarrow> (\<exists>b. blank_line_boundary b \<and> sublist b p)"
proof (induction p)
  case Nil
  show ?case by (auto simp: blank_line_boundary_def)
next
  case (Cons c r)
  show ?case
    by (auto simp: Cons.IH starts_blank_iff sublist_Cons_right simp del: has_blank.simps(2)
          simp add: has_blank.simps(2) [of c r])
qed

lemma weave_Cons_Cons: "weave ((c # p) # ps) seps = c # weave (p # ps) seps"
  by (cases seps) simp_all

lemma re_split_weave:
  "\<exists>seps. length (re_split s) = Suc (length seps) \<and> weave (re_split s) seps = s
     \<and> list_all blank_line_boundary seps"
proof (induction s rule: re_split.induct)
  case 1
  have "length (re_split []) = Suc (length ([] :: string list)) \<and> weave (re_split []) [] = []
      \<and> list_all blank_line_boundary []"
    by simp
  then show ?case by blast
next
  case (2 c r)
  show ?case
  proof (cases "match_blank (c # r)")
    case None
    from "2.IH"(1) [OF None] obtain seps where
      seps: "length (re_split r) = Suc (length seps)" "weave (re_split r) seps = r"
        "list_all blank_line_boundary seps"
      by blast
    obtain p ps where ps: "re_split r = p # ps"
      using re_split_nonempty [of r] by (cases "re_split r") auto
    have "re_split (c # r) = (c # p) # ps"
      using None ps by simp
    with seps ps have "length (re_split (c # r)) = Suc (length seps)
        \<and> weave (re_split (c # r)) seps = c # r \<and> list_all blank_line_boundary seps"
      by (simp add: weave_Cons_Cons)
    then show ?thesis by blast
  next
    case (Some rest)
    from "2.IH"(2) [OF Some] obtain seps where
      seps: "length (re_split rest) = Suc (length seps)" "weave (re_split rest) seps = rest"
        "list_all blank_line_boundary seps"
      by blast
    from match_blank_boundary [OF Some] obtain b where
      b: "c # r = b @ rest" "blank_line_boundary b"
      by blast
    have "re_split (c # r) = [] # re_split rest"
      using Some by simp
    moreover obtain p ps where ps: "re_split rest = p # ps"
      using re_split_nonempty [of rest] by (cases "re_split rest") auto
    ultimately have "length (re_split (c # r)) = Suc (length (b # seps))
        \<and> weave (re_split (c # r)) (b # seps) = c # r
        \<and> list_all blank_line_boundary (b # seps)"
      using seps b by simp
    then show ?thesis by blast
  qed
qed

lemma strip_sublist: "sublist (strip s) s"
proof -
  have "sublist (rev (dropWhile isspace (rev (dropWhile isspace s)))) (dropWhile isspace s)"
    by (metis sublist_dropWhile sublist_rev_left)
  then show ?thesis
    unfolding strip_def by (rule sublist_order.order_trans) simp
qed

lemma last_dropWhile: "dropWhile P xs \<noteq> [] \<Longrightarrow> last (dropWhile P xs) = last xs"
  by (induction xs) (auto split: if_splits)

lemma strip_ends:
  assumes "strip s \<noteq> []"
  shows "\<not> isspace (hd (strip s))" and "\<not> isspace (last (strip s))"
proof -
  let ?d = "dropWhile isspace s"
  let ?e = "dropWhile isspace (rev ?d)"
  from assms have e: "?e \<noteq> []" by (simp add: strip_def)
  then have "rev ?d \<noteq> []" by (metis dropWhile.simps(1))
  then have d: "?d \<noteq> []" by simp
  have "last (strip s) = hd ?e" using e by (simp add: strip_def last_rev)
  with e show "\<not> isspace (last (strip s))" by (simp add: hd_dropWhile)
  have "hd (strip s) = last ?e" using e by (simp add: strip_def hd_rev)
  also have "\<dots> = last (rev ?d)" using e by (rule last_dropWhile)
  also have "\<dots> = hd ?d" using d by (simp add: last_rev)
  finally show "\<not> isspace (hd (strip s))" using d by (simp add: hd_dropWhile)
qed

lemma strip_id:
  assumes "s \<noteq> []" "\<not> isspace (hd s)" "\<not> isspace (last s)"
  shows "strip s = s"
proof -
  from assms(1,2) have "dropWhile isspace s = s" by (cases s) auto
  moreover have "dropWhile isspace (rev s) = rev s"
  proof -
    from assms(1,3) have "rev s \<noteq> []" "\<not> isspace (hd (rev s))"
      by (simp_all add: hd_rev)
    then show ?thesis by (cases "rev s") auto
  qed
  ultimately show ?thesis by (simp add: strip_def)
qed

lemma strip_Nil: "strip [] = []"
  by (simp add: strip_def)

lemma split_clauses_Nil: "split_clauses [] = []"
  by (simp add: split_clauses_def strip_Nil)

lemma starts_blank_inside:
  assumes "\<exists>y\<in>set r. \<not> isspace y"
  shows "starts_blank (x # r @ s) = starts_blank (x # r)"
proof -
  from assms obtain y where "y \<in> set r" "\<not> isspace y" by blast
  then have "takeWhile isspace (r @ s) = takeWhile isspace r" by (rule takeWhile_append1)
  then show ?thesis by (simp add: starts_blank_def)
qed

lemma re_split_clean_prefix:
  "c \<noteq> [] \<Longrightarrow> \<not> isspace (last c) \<Longrightarrow> \<not> has_blank c \<Longrightarrow>
   re_split (c @ s) = (c @ hd (re_split s)) # tl (re_split s)"
proof (induction c)
  case Nil
  then show ?case by simp
next
  case (Cons x c)
  show ?case
  proof (cases "c = []")
    case True
    with Cons.prems have "x \<noteq> newline" by (auto simp: isspace_newline)
    then have "match_blank (x # s) = None" by (simp add: match_blank_def)
    then show ?thesis using True by (simp add: re_split_no_match del: re_split.simps)
  next
    case False
    with Cons.prems have l: "\<not> isspace (last c)" and h: "\<not> has_blank c"
      and n: "\<not> starts_blank (x # c)"
      by simp_all
    from False l have "\<exists>y\<in>set c. \<not> isspace y" by (metis last_in_set)
    with n have "\<not> starts_blank (x # c @ s)" by (simp add: starts_blank_inside)
    then have "match_blank (x # c @ s) = None" by (simp add: match_blank_None_iff)
    then have "re_split ((x # c) @ s) = (x # hd (re_split (c @ s))) # tl (re_split (c @ s))"
      by (simp add: re_split_no_match del: re_split.simps)
    with Cons.IH [OF False l h] show ?thesis by simp
  qed
qed

lemma match_blank_exact:
  assumes "blank_line_boundary b" "g \<noteq> []" "\<not> isspace (hd g)"
  shows "match_blank (b @ g) = Some g"
proof -
  from assms(1) obtain w where w: "b = newline # w" "w \<noteq> []" "last w = newline"
      "list_all isspace w"
    unfolding boundary_shape by blast
  from assms(2,3) have tg: "takeWhile isspace g = []" by (cases g) auto
  have "takeWhile isspace (w @ g) = w @ takeWhile isspace g"
    using w(4) by (intro takeWhile_append2) (simp add: list_all_iff)
  with tg have k: "length (takeWhile isspace (w @ g)) = length w" by simp
  let ?j = "length w - 1"
  have j: "Suc ?j = length w" using w(2) by simp
  have "give_back (length w) (w @ g) = Some (drop (Suc ?j) (w @ g))"
  proof (rule give_back_last)
    show "?j \<le> length w" by simp
    have "?j < length w" using w(2) by simp
    then show "?j < length (w @ g)" by simp
    show "(w @ g) ! ?j = newline" using w(2,3) by (simp add: nth_append last_conv_nth)
    show "\<forall>i. ?j < i \<and> i \<le> length w \<longrightarrow> \<not> (i < length (w @ g) \<and> (w @ g) ! i = newline)"
    proof (intro allI impI)
      fix i assume "?j < i \<and> i \<le> length w"
      with j have "i = length w" by simp
      moreover have "hd g \<noteq> newline" using assms(3) by (auto simp: isspace_newline)
      ultimately show "\<not> (i < length (w @ g) \<and> (w @ g) ! i = newline)"
        using assms(2) by (simp add: nth_append hd_conv_nth)
    qed
  qed
  moreover have "drop (Suc ?j) (w @ g) = g" unfolding j by simp
  ultimately have "give_back (length w) (w @ g) = Some g" by (simp only:)
  then show ?thesis by (simp add: match_blank_def w(1) k)
qed

lemma re_split_join:
  "blank_line_boundary b \<Longrightarrow> list_all clean cs \<Longrightarrow> cs \<noteq> [] \<Longrightarrow> re_split (str_join b cs) = cs"
proof (induction b cs rule: str_join.induct)
  case (1 sep)
  then show ?case by simp
next
  case (2 sep x)
  then have "re_split (x @ []) = (x @ hd (re_split [])) # tl (re_split [])"
    by (intro re_split_clean_prefix) (simp_all add: clean_def)
  then show ?case by simp
next
  case (3 sep x y ys)
  let ?g = "str_join sep (y # ys)"
  from "3.prems" have y: "y \<noteq> []" "\<not> isspace (hd y)" by (simp_all add: clean_def)
  then have g: "?g \<noteq> []" "hd ?g = hd y" by (cases ys; simp)+
  from "3.prems"(1) obtain w where w: "sep = newline # w"
    unfolding boundary_shape by blast
  have m: "match_blank (sep @ ?g) = Some ?g"
    using "3.prems"(1) g y(2) by (intro match_blank_exact) simp_all
  then have "re_split (sep @ ?g) = [] # re_split ?g"
    unfolding w by (simp del: re_split.simps add: re_split_match)
  moreover have "re_split ?g = y # ys"
    using "3.prems" by (intro "3.IH") simp_all
  moreover have "re_split (x @ sep @ ?g) = (x @ hd (re_split (sep @ ?g))) # tl (re_split (sep @ ?g))"
    using "3.prems"(2) by (intro re_split_clean_prefix) (simp_all add: clean_def)
  ultimately show ?case by simp
qed

lemma split_clauses_clean: "list_all clean (split_clauses text)"
proof -
  have "clean (strip p)" if p: "p \<in> set (re_split text)" and l: "40 < length (strip p)" for p
  proof -
    from l have ne: "strip p \<noteq> []" by auto
    have "\<not> has_blank (strip p)"
      using re_split_pieces_clean [OF p] has_blank_sublist [OF strip_sublist] by blast
    with ne strip_ends [OF ne] show ?thesis by (simp add: clean_def)
  qed
  then show ?thesis
    by (auto simp: split_clauses_def list_all_iff)
qed

lemma split_clauses_fixed:
  "list_all (\<lambda>c. strip c = c \<and> 40 < length c) (split_clauses text)"
proof -
  have "strip (strip p) = strip p" if "40 < length (strip p)" for p
  proof -
    from that have ne: "strip p \<noteq> []" by auto
    from strip_ends [OF ne] ne show ?thesis by (intro strip_id)
  qed
  then show ?thesis
    by (auto simp: split_clauses_def list_all_iff)
qed

section \<open>Facts about the analysis loop\<close>


lemma analysis_loop_Cons:
  "analysis_loop i (c # cs) h =
     (let h' = (if risk_level (detect_risks c) = ''High'' then h + 1 else h) in
      (\<lparr>ordinal = i + 1, intent = classify_intent c, level = risk_level (detect_risks c),
         risks = detect_risks c, vague = detect_ambiguity c\<rparr>
        # fst (analysis_loop (i + 1) cs h'),
       snd (analysis_loop (i + 1) cs h')))"
  by (simp add: Let_def split: prod.split)

lemma analysis_loop_count:
  "snd (analysis_loop i clauses h) =
     h + length (filter (\<lambda>r. level r = ''High'') (fst (analysis_loop i clauses h)))"
proof (induction clauses arbitrary: i h)
  case Nil
  show ?case by simp
next
  case (Cons c cs)
  show ?case
    unfolding analysis_loop_Cons Let_def
    by (simp add: Cons.IH)
qed

lemma analysis_loop_level:
  "r \<in> set (fst (analysis_loop i clauses h)) \<Longrightarrow> level r = risk_level (risks r)"
proof (induction clauses arbitrary: i h)
  case Nil
  then show ?case by simp
next
  case (Cons c cs)
  from Cons.prems show ?case
    unfolding analysis_loop_Cons Let_def
    by (auto dest: Cons.IH)
qed

lemma analysis_loop_ordinal:
  "map ordinal (fst (analysis_loop i clauses h)) = [Suc i ..< Suc i + length clauses]"
proof (induction clauses arbitrary: i h)
  case Nil
  show ?case by simp
next
  case (Cons c cs)
  have "[Suc i ..< Suc i + length (c # cs)] = Suc i # [Suc (Suc i) ..< Suc (Suc i) + length cs]"
    by (subst upt_conv_Cons) simp_all
  then show ?case
    unfolding analysis_loop_Cons Let_def
    by (simp add: Cons.IH)
qed

section \<open>Facts about the risk detector\<close>


lemma subseq_append_if: "subseq rs ts \<Longrightarrow> subseq (append_if b r rs) (ts @ [r])"
  by (auto simp: append_if_def)

lemma in_set_append_if: "x \<in> set (append_if b r rs) \<longleftrightarrow> x \<in> set rs \<or> (b \<and> x = r)"
  by (auto simp: append_if_def)

lemma detect_risks_subseq: "subseq (detect_risks clause) taxonomy"
proof -
  have "subseq (detect_risks clause)
          (((((((([] @ [''Indemnity'']) @ [''Penalty'']) @ [''Unilateral Termination''])
            @ [''Arbitration/Jurisdiction'']) @ [''Auto Renewal'']) @ [''Non Compete''])
            @ [''IP Transfer'']) @ [''Lock-in Period''])"
    unfolding detect_risks_def Let_def
    by (intro subseq_append_if) simp
  then show ?thesis by (simp add: taxonomy_def)
qed

lemma subseq_distinct: "subseq xs ys \<Longrightarrow> distinct ys \<Longrightarrow> distinct xs"
  by (induction rule: list_emb.induct) (auto elim: list_emb_set)

lemma distinct_taxonomy: "distinct taxonomy"
  by (simp add: taxonomy_def)

lemma ip_transfer_iff:
  "''IP Transfer'' \<in> set (detect_risks clause) \<longleftrightarrow>
     str_in ''intellectual property'' (lower clause) \<and> str_in ''assign'' (lower clause)"
  by (simp add: detect_risks_def Let_def in_set_append_if)

lemma in_detect_ambiguity:
  "w \<in> set (detect_ambiguity clause) \<longleftrightarrow> w \<in> set vague_phrases \<and> sublist w (lower clause)"
  by (simp add: detect_ambiguity_def str_in_sublist)

section \<open>The claims\<close>


text \<open>
  Claim C1. The text made of the clause "Employee shall not disclose confidential
  information.", a blank line, and the clause "Employee shall indemnify Employer for any
  penalty arising from breach. This clause also includes arbitration for disputes." gives
  exactly two clauses. Clause 1 is a Prohibition with no risks and level Low; clause 2 is
  an Obligation with the risks Indemnity, Penalty, Arbitration/Jurisdiction in that order
  and level High; one clause is High, so the overall risk is Medium. (The contract type of
  the text, which the run also shows, is Employment Agreement, and no vague phrase is
  found.)
\<close>


theorem end_to_end_example:
  "analyse (''Employee shall not disclose confidential information.'' @ [newline, newline] @
      ''Employee shall indemnify Employer for any penalty arising from breach. This clause also includes arbitration for disputes.'')
   = (''Employment Agreement'',
      [\<lparr>ordinal = 1, intent = ''Prohibition'', level = ''Low'', risks = [], vague = []\<rparr>,
       \<lparr>ordinal = 2, intent = ''Obligation'', level = ''High'',
          risks = [''Indemnity'', ''Penalty'', ''Arbitration/Jurisdiction''], vague = []\<rparr>],
      ''Medium'')"
  by code_simp

text \<open>
  Claim C2. The intent of a clause is decided on its lower-cased text by the first rule
  that matches: Prohibition when "shall not", "must not" or "prohibited" occurs, whatever
  else occurs; otherwise Obligation when "shall" or "must" occurs; otherwise Right when
  "may" or "entitled to" occurs; otherwise Neutral. The four cases are exhaustive and
  exclude each other, so every clause gets exactly one label.
\<close>


theorem classify_intent_precedence:
  "let c = lower clause;
       prohibition = (str_in ''shall not'' c \<or> str_in ''must not'' c \<or> str_in ''prohibited'' c);
       obligation = (str_in ''shall'' c \<or> str_in ''must'' c);
       right = (str_in ''may'' c \<or> str_in ''entitled to'' c)
   in (prohibition \<longrightarrow> classify_intent clause = ''Prohibition'')
    \<and> (\<not> prohibition \<and> obligation \<longrightarrow> classify_intent clause = ''Obligation'')
    \<and> (\<not> prohibition \<and> \<not> obligation \<and> right \<longrightarrow> classify_intent clause = ''Right'')
    \<and> (\<not> prohibition \<and> \<not> obligation \<and> \<not> right \<longrightarrow> classify_intent clause = ''Neutral'')"
  by (simp add: classify_intent_def Let_def)

theorem classify_intent_precedence_witness:
  "str_in ''shall not'' (lower ''Vendor SHALL NOT assign; Vendor may and must deliver.'')
   \<and> str_in ''shall'' (lower ''Vendor SHALL NOT assign; Vendor may and must deliver.'')
   \<and> str_in ''must'' (lower ''Vendor SHALL NOT assign; Vendor may and must deliver.'')
   \<and> str_in ''may'' (lower ''Vendor SHALL NOT assign; Vendor may and must deliver.'')
   \<and> classify_intent ''Vendor SHALL NOT assign; Vendor may and must deliver.'' = ''Prohibition''"
proof -
  let ?c = "''Vendor SHALL NOT assign; Vendor may and must deliver.''"
  have h: "str_in ''shall not'' (lower ?c)" "str_in ''shall'' (lower ?c)"
    "str_in ''must'' (lower ?c)" "str_in ''may'' (lower ?c)"
    by code_simp+
  from classify_intent_precedence [of ?c] h(1)
  have "classify_intent ?c = ''Prohibition''"
    by (simp only: Let_def simp_thms)
  with h show ?thesis by simp
qed

text \<open>
  Claim C3. The level of a list of risk categories is Low exactly when the list is empty,
  Medium exactly when it has one element and High exactly when it has two or more; two
  lists of the same length have the same level; and the level the loop shows for a clause
  is the level of that clause's risk list, so the vague phrases found take no part in it.
\<close>


theorem risk_level_by_size:
  "(risk_level rs = ''Low'' \<longleftrightarrow> length rs = 0)
   \<and> (risk_level rs = ''Medium'' \<longleftrightarrow> length rs = 1)
   \<and> (risk_level rs = ''High'' \<longleftrightarrow> 2 \<le> length rs)
   \<and> (\<forall>rs'. length rs' = length rs \<longrightarrow> risk_level rs' = risk_level rs)
   \<and> (\<forall>r \<in> set (fst (analysis_loop i clauses h)). level r = risk_level (risks r))"
proof -
  have "length rs = 0 \<or> length rs = 1 \<or> 2 \<le> length rs" by arith
  then show ?thesis
    by (auto simp: risk_level_def analysis_loop_level)
qed

theorem risk_level_by_size_witness:
  "risk_level [''Penalty''] = ''Medium''
   \<and> (\<exists>r. r \<in> set (fst (analysis_loop 0 [''Late payment attracts a penalty as appropriate.''] 0))
          \<and> vague r = [''as appropriate''] \<and> risks r = [''Penalty'']
          \<and> level r = risk_level (risks r))"
proof -
  let ?c = "''Late payment attracts a penalty as appropriate.''"
  let ?r = "\<lparr>ordinal = 1, intent = ''Neutral'', level = ''Medium'', risks = [''Penalty''],
             vague = [''as appropriate'']\<rparr>"
  have e: "fst (analysis_loop 0 [?c] 0) = [?r]"
    by code_simp
  then have m: "?r \<in> set (fst (analysis_loop 0 [?c] 0))"
    by (simp only: list.set insertI1)
  from risk_level_by_size [of "[''Penalty'']" 0 "[?c]" 0]
  have one: "risk_level [''Penalty''] = ''Medium''"
    and all: "\<forall>r \<in> set (fst (analysis_loop 0 [?c] 0)). level r = risk_level (risks r)"
    by simp_all
  from all m have "level ?r = risk_level (risks ?r)" by (rule bspec)
  with m have "?r \<in> set (fst (analysis_loop 0 [?c] 0))
      \<and> vague ?r = [''as appropriate''] \<and> risks ?r = [''Penalty'']
      \<and> level ?r = risk_level (risks ?r)"
    by simp
  then have "\<exists>r. r \<in> set (fst (analysis_loop 0 [?c] 0))
      \<and> vague r = [''as appropriate''] \<and> risks r = [''Penalty'']
      \<and> level r = risk_level (risks r)"
    by (rule exI)
  with one show ?thesis by (rule conjI)
qed

text \<open>
  Claim C4. After the loop over any list of clauses, the count it kept is the number of
  clauses whose level is High, and the overall risk is Low when that number is zero,
  Medium when it is 1 or 2, and High when it exceeds 2.
\<close>


theorem overall_risk_by_high_count:
  "case analysis_loop i clauses 0 of (reports, high_count) \<Rightarrow>
     (let n = length (filter (\<lambda>r. level r = ''High'') reports)
      in high_count = n
       \<and> (n = 0 \<longrightarrow> overall_risk high_count = ''Low'')
       \<and> (n = 1 \<or> n = 2 \<longrightarrow> overall_risk high_count = ''Medium'')
       \<and> (2 < n \<longrightarrow> overall_risk high_count = ''High''))"
  using analysis_loop_count [of i clauses 0]
  by (auto simp: overall_risk_def Let_def split: prod.splits)

theorem overall_risk_by_high_count_witness:
  "length (filter (\<lambda>r. level r = ''High'')
      (fst (analysis_loop 0 [''Supplier shall indemnify Buyer and pay a penalty.''] 0))) = 1
   \<and> overall_risk (snd (analysis_loop 0 [''Supplier shall indemnify Buyer and pay a penalty.''] 0))
       = ''Medium''"
proof -
  let ?c = "''Supplier shall indemnify Buyer and pay a penalty.''"
  obtain reports hc where a: "analysis_loop 0 [?c] 0 = (reports, hc)"
    by (cases "analysis_loop 0 [?c] 0")
  have lv: "risk_level (detect_risks ?c) = ''High''" by code_simp
  have "length (filter (\<lambda>r. level r = ''High'') (fst (analysis_loop 0 [?c] 0))) = 1"
    by (simp add: analysis_loop_Cons Let_def lv del: analysis_loop.simps(2))
  then have n: "length (filter (\<lambda>r. level r = ''High'') reports) = 1"
    by (simp only: a fst_conv)
  have "hc = length (filter (\<lambda>r. level r = ''High'') reports)
      \<and> (length (filter (\<lambda>r. level r = ''High'') reports) = 1
           \<or> length (filter (\<lambda>r. level r = ''High'') reports) = 2
          \<longrightarrow> overall_risk hc = ''Medium'')"
    using overall_risk_by_high_count [of 0 "[?c]"]
    by (simp only: a prod.case Let_def) blast
  with n have "overall_risk hc = ''Medium''" by blast
  with n show ?thesis by (simp only: a fst_conv snd_conv simp_thms)
qed

text \<open>
  Claim C5. For every clause the detected risks are a list without duplicates, drawn from
  the eight categories of the taxonomy and in the order of the taxonomy (a subsequence of
  it), wherever the patterns stand in the clause; IP Transfer is in the list exactly when
  both "intellectual property" and "assign" occur in the lower-cased clause. The detector
  is a function of the clause text, so equal inputs give equal outputs.
\<close>


theorem detect_risks_taxonomy:
  "distinct (detect_risks clause)
   \<and> set (detect_risks clause) \<subseteq> set taxonomy
   \<and> subseq (detect_risks clause) taxonomy
   \<and> length taxonomy = 8 \<and> distinct taxonomy
   \<and> (''IP Transfer'' \<in> set (detect_risks clause) \<longleftrightarrow>
        str_in ''intellectual property'' (lower clause) \<and> str_in ''assign'' (lower clause))"
  using detect_risks_subseq [of clause] distinct_taxonomy ip_transfer_iff [of clause]
  by (auto simp: taxonomy_def dest: subseq_distinct elim: list_emb_set)

theorem detect_risks_taxonomy_witness:
  "detect_risks ''Arbitration in Delhi. Supplier shall indemnify and assign all Intellectual Property.''
     = [''Indemnity'', ''Arbitration/Jurisdiction'', ''IP Transfer'']
   \<and> subseq (detect_risks
        ''Arbitration in Delhi. Supplier shall indemnify and assign all Intellectual Property.'')
        taxonomy
   \<and> ''IP Transfer'' \<in> set (detect_risks
        ''Arbitration in Delhi. Supplier shall indemnify and assign all Intellectual Property.'')"
proof -
  let ?c = "''Arbitration in Delhi. Supplier shall indemnify and assign all Intellectual Property.''"
  have e: "detect_risks ?c = [''Indemnity'', ''Arbitration/Jurisdiction'', ''IP Transfer'']"
    by code_simp
  have h: "str_in ''intellectual property'' (lower ?c) \<and> str_in ''assign'' (lower ?c)"
    by code_simp
  from detect_risks_taxonomy [of ?c] h e show ?thesis by blast
qed

text \<open>
  Claim C6. The segmenter splits the text at its blank-line boundaries: the text is the
  pieces with a blank-line boundary between each two neighbours, in order, and no piece
  has a blank-line boundary inside. Every piece is trimmed of the whitespace at its ends,
  the pieces whose trimmed length is at most 40 are dropped, and the others are returned
  in the order of the text; so every clause returned is trimmed and longer than 40. The
  loop numbers the clauses from 1 in that order. The empty text gives no clause. The
  segmenter is a total function: there is no input on which it fails.
\<close>

theorem split_clauses_blank_lines:
  "(\<exists>pieces seps.
      length pieces = length seps + 1 \<and> weave pieces seps = text
      \<and> list_all blank_line_boundary seps
      \<and> list_all (\<lambda>p. \<not> (\<exists>b. blank_line_boundary b \<and> sublist b p)) pieces
      \<and> split_clauses text = map strip (filter (\<lambda>p. 40 < length (strip p)) pieces))
   \<and> list_all (\<lambda>c. strip c = c \<and> 40 < length c) (split_clauses text)
   \<and> map ordinal (fst (analysis_loop 0 (split_clauses text) 0))
       = [1 ..< length (split_clauses text) + 1]
   \<and> split_clauses [] = []"
proof -
  obtain seps where seps: "length (re_split text) = Suc (length seps)"
      "weave (re_split text) seps = text" "list_all blank_line_boundary seps"
    using re_split_weave [of "text"] by blast
  have "list_all (\<lambda>p. \<not> (\<exists>b. blank_line_boundary b \<and> sublist b p)) (re_split text)"
    using re_split_pieces_clean [of _ "text"] by (simp add: list_all_iff has_blank_iff)
  with seps have "length (re_split text) = length seps + 1 \<and> weave (re_split text) seps = text
      \<and> list_all blank_line_boundary seps
      \<and> list_all (\<lambda>p. \<not> (\<exists>b. blank_line_boundary b \<and> sublist b p)) (re_split text)
      \<and> split_clauses text = map strip (filter (\<lambda>p. 40 < length (strip p)) (re_split text))"
    by (simp add: split_clauses_def)
  then have "\<exists>pieces seps.
      length pieces = length seps + 1 \<and> weave pieces seps = text
      \<and> list_all blank_line_boundary seps
      \<and> list_all (\<lambda>p. \<not> (\<exists>b. blank_line_boundary b \<and> sublist b p)) pieces
      \<and> split_clauses text = map strip (filter (\<lambda>p. 40 < length (strip p)) pieces)"
    by blast
  moreover have "map ordinal (fst (analysis_loop 0 (split_clauses text) 0))
      = [1 ..< length (split_clauses text) + 1]"
    using analysis_loop_ordinal [of 0 "split_clauses text" 0] by simp
  ultimately show ?thesis
    using split_clauses_fixed [of "text"] split_clauses_Nil by blast
qed

theorem split_clauses_blank_lines_witness:
  "split_clauses
     (''The Supplier shall deliver the goods within thirty days.'' @ [newline, CHR '' '', newline]
        @ ''Too short.'' @ [newline, newline, newline]
        @ ''  Either party may terminate the lease'' @ [newline] @ ''on sixty days notice. '')
     = [''The Supplier shall deliver the goods within thirty days.'',
        ''Either party may terminate the lease'' @ [newline] @ ''on sixty days notice.'']
   \<and> (\<exists>pieces seps.
        length pieces = length seps + 1
        \<and> weave pieces seps =
            ''The Supplier shall deliver the goods within thirty days.''
              @ [newline, CHR '' '', newline] @ ''Too short.'' @ [newline, newline, newline]
              @ ''  Either party may terminate the lease'' @ [newline] @ ''on sixty days notice. ''
        \<and> list_all blank_line_boundary seps
        \<and> list_all (\<lambda>p. \<not> (\<exists>b. blank_line_boundary b \<and> sublist b p)) pieces
        \<and> split_clauses
            (''The Supplier shall deliver the goods within thirty days.''
              @ [newline, CHR '' '', newline] @ ''Too short.'' @ [newline, newline, newline]
              @ ''  Either party may terminate the lease'' @ [newline] @ ''on sixty days notice. '')
            = map strip (filter (\<lambda>p. 40 < length (strip p)) pieces))"
proof -
  let ?t = "''The Supplier shall deliver the goods within thirty days.''
      @ [newline, CHR '' '', newline] @ ''Too short.'' @ [newline, newline, newline]
      @ ''  Either party may terminate the lease'' @ [newline] @ ''on sixty days notice. ''"
  have "split_clauses ?t
      = [''The Supplier shall deliver the goods within thirty days.'',
         ''Either party may terminate the lease'' @ [newline] @ ''on sixty days notice.'']"
    by code_simp
  moreover from split_clauses_blank_lines [of ?t]
  have "\<exists>pieces seps.
      length pieces = length seps + 1 \<and> weave pieces seps = ?t
      \<and> list_all blank_line_boundary seps
      \<and> list_all (\<lambda>p. \<not> (\<exists>b. blank_line_boundary b \<and> sublist b p)) pieces
      \<and> split_clauses ?t = map strip (filter (\<lambda>p. 40 < length (strip p)) pieces)"
    by (rule conjunct1)
  ultimately show ?thesis by (rule conjI)
qed

text \<open>
  Claim C7. Segmenting is idempotent under rejoining: when the clauses of a text are
  joined again with a blank-line boundary between them (two line breaks, or any other
  blank-line boundary), segmenting the joined text gives the same clauses.
\<close>

theorem split_clauses_rejoin:
  "blank_line_boundary sep \<Longrightarrow>
   split_clauses (str_join sep (split_clauses text)) = split_clauses text"
proof (cases "split_clauses text = []")
  case True
  then show ?thesis by (simp add: split_clauses_Nil)
next
  case False
  assume "blank_line_boundary sep"
  then have "re_split (str_join sep (split_clauses text)) = split_clauses text"
    using split_clauses_clean False by (rule re_split_join)
  then have "split_clauses (str_join sep (split_clauses text))
      = map strip (filter (\<lambda>p. 40 < length (strip p)) (split_clauses text))"
    by (simp add: split_clauses_def [of "str_join sep (split_clauses text)"])
  also have "\<dots> = split_clauses text"
  proof -
    have "filter (\<lambda>p. 40 < length (strip p)) (split_clauses text) = split_clauses text"
      using split_clauses_fixed [of "text"] by (intro filter_True) (simp add: list_all_iff)
    moreover have "map strip (split_clauses text) = split_clauses text"
      using split_clauses_fixed [of "text"] by (intro map_idI) (simp add: list_all_iff)
    ultimately show ?thesis by simp
  qed
  finally show ?thesis .
qed

theorem split_clauses_rejoin_witness:
  "blank_line_boundary [newline, newline]
   \<and> split_clauses
       (''Licensee shall pay all fees within forty-five days.'' @ [newline, CHR 0x09, newline]
          @ ''Licensor may audit the records of Licensee once a year. '')
     = [''Licensee shall pay all fees within forty-five days.'',
        ''Licensor may audit the records of Licensee once a year.'']
   \<and> split_clauses (str_join [newline, newline] (split_clauses
       (''Licensee shall pay all fees within forty-five days.'' @ [newline, CHR 0x09, newline]
          @ ''Licensor may audit the records of Licensee once a year. '')))
     = split_clauses
       (''Licensee shall pay all fees within forty-five days.'' @ [newline, CHR 0x09, newline]
          @ ''Licensor may audit the records of Licensee once a year. '')"
proof -
  let ?t = "''Licensee shall pay all fees within forty-five days.'' @ [newline, CHR 0x09, newline]
      @ ''Licensor may audit the records of Licensee once a year. ''"
  have b: "blank_line_boundary [newline, newline]"
    by (simp add: blank_line_boundary_def isspace_newline)
  have e: "split_clauses ?t
      = [''Licensee shall pay all fees within forty-five days.'',
         ''Licensor may audit the records of Licensee once a year.'']"
    by code_simp
  from b e split_clauses_rejoin [OF b, of ?t] show ?thesis by (intro conjI)
qed

text \<open>
  Claim C9. The contract type is decided on the lower-cased text by the first rule that
  matches: "employee" or "salary" gives Employment Agreement; otherwise "lease" or "rent"
  gives Lease Agreement; otherwise "vendor" or "supply" gives Vendor Contract; otherwise
  "partner" gives Partnership Agreement; otherwise Service Agreement. In particular a text
  with "vendor" and "supply" and none of "employee", "salary", "lease", "rent" is a Vendor
  Contract, and the empty text is a Service Agreement.
\<close>


theorem classify_contract_first_match:
  "let t = lower text;
       employment = (str_in ''employee'' t \<or> str_in ''salary'' t);
       lease = (str_in ''lease'' t \<or> str_in ''rent'' t);
       vendor = (str_in ''vendor'' t \<or> str_in ''supply'' t);
       partnership = str_in ''partner'' t
   in (employment \<longrightarrow> classify_contract text = ''Employment Agreement'')
    \<and> (\<not> employment \<and> lease \<longrightarrow> classify_contract text = ''Lease Agreement'')
    \<and> (\<not> employment \<and> \<not> lease \<and> vendor \<longrightarrow> classify_contract text = ''Vendor Contract'')
    \<and> (\<not> employment \<and> \<not> lease \<and> \<not> vendor \<and> partnership \<longrightarrow>
          classify_contract text = ''Partnership Agreement'')
    \<and> (\<not> employment \<and> \<not> lease \<and> \<not> vendor \<and> \<not> partnership \<longrightarrow>
          classify_contract text = ''Service Agreement'')
    \<and> (str_in ''vendor'' t \<and> str_in ''supply'' t \<and> \<not> str_in ''employee'' t
          \<and> \<not> str_in ''salary'' t \<and> \<not> str_in ''lease'' t \<and> \<not> str_in ''rent'' t \<longrightarrow>
          classify_contract text = ''Vendor Contract'')
    \<and> classify_contract [] = ''Service Agreement''"
  by (simp add: classify_contract_def Let_def lower_def)

theorem classify_contract_first_match_witness:
  "str_in ''vendor'' (lower ''The Vendor shall supply goods to its Partner.'')
   \<and> str_in ''supply'' (lower ''The Vendor shall supply goods to its Partner.'')
   \<and> str_in ''partner'' (lower ''The Vendor shall supply goods to its Partner.'')
   \<and> classify_contract ''The Vendor shall supply goods to its Partner.'' = ''Vendor Contract''"
proof -
  let ?t = "''The Vendor shall supply goods to its Partner.''"
  have h: "str_in ''vendor'' (lower ?t)" "str_in ''supply'' (lower ?t)"
    "str_in ''partner'' (lower ?t)"
    "\<not> str_in ''employee'' (lower ?t)" "\<not> str_in ''salary'' (lower ?t)"
    "\<not> str_in ''lease'' (lower ?t)" "\<not> str_in ''rent'' (lower ?t)"
    by code_simp+
  from classify_contract_first_match [of ?t] h
  have "classify_contract ?t = ''Vendor Contract''"
    by (simp only: Let_def simp_thms)
  with h show ?thesis by simp
qed

text \<open>
  Claim C10. Vague phrases are matched as raw substrings: whenever the letters "etc"
  occur anywhere in the lower-cased clause, whatever stands before and after them (the
  middle of a longer word such as "stretch" included), "etc" is among the phrases found.
\<close>


theorem detect_ambiguity_raw_substring:
  "lower clause = u @ ''etc'' @ v \<Longrightarrow> ''etc'' \<in> set (detect_ambiguity clause)"
  by (simp add: in_detect_ambiguity vague_phrases_def sublist_def) blast

theorem detect_ambiguity_raw_substring_witness:
  "lower ''The parties may stretch the schedule.'' = ''the parties may str'' @ ''etc'' @ ''h the schedule.''
   \<and> detect_ambiguity ''The parties may stretch the schedule.'' = [''etc'']"
proof -
  let ?c = "''The parties may stretch the schedule.''"
  have l: "lower ?c = ''the parties may str'' @ ''etc'' @ ''h the schedule.''"
    by code_simp
  have "''etc'' \<in> set (detect_ambiguity ?c)"
    by (rule detect_ambiguity_raw_substring [OF l])
  moreover have "\<not> str_in ''reasonable'' (lower ?c)" "\<not> str_in ''as soon as possible'' (lower ?c)"
    "\<not> str_in ''as appropriate'' (lower ?c)" "\<not> str_in ''from time to time'' (lower ?c)"
    by code_simp+
  ultimately have "detect_ambiguity ?c = [''etc'']"
    by (simp add: detect_ambiguity_def vague_phrases_def split: if_splits)
  with l show ?thesis by simp
qed

end
